theory Spec2Isabelle
  imports Main "HOL-Library.Sublist"
begin

section \<open>convert_series.py: a line list to catalogue records\<close>

text \<open>
  The script reads a text file line by line, strips each line, skips the empty ones,
  splits the others at the first separator (a space, the em dash U+2014, a space), tries
  \<open>int\<close> on the part after it, and collects one dictionary per line kept; the list is
  written as JSON once the file has been read to its end.

  A Python \<open>str\<close> is a sequence of Unicode code points, so a string is a list of
  natural numbers here (the separator's dash is one element, 8212), not a list of
  bytes. The library functions the script calls (\<open>str.strip\<close>, \<open>in\<close>,
  \<open>str.split\<close>, \<open>int\<close>, \<open>str\<close>, \<open>json.dump\<close>) are modelled as CPython 3.11
  computes them; its Unicode tables are those of Unicode 14.0.

  Two things outside the file decide what a run does, and both are parameters of the
  model: the interpreter's limit on the digits \<open>int\<close> converts (4300 unless it is
  set otherwise), and standard output, whose \<open>write\<close> may raise.
\<close>

subsection \<open>Strings and errors\<close>

type_synonym codepoint = nat
type_synonym pystr = "codepoint list"

datatype py_error = ValueError | OSError | UnicodeDecodeError | UnicodeEncodeError

definition is_ValueError :: "py_error \<Rightarrow> bool" where
  \<comment> \<open>what \<open>except ValueError\<close> catches: the class and its subclasses\<close>
  "is_ValueError e = (e = ValueError \<or> e = UnicodeDecodeError \<or> e = UnicodeEncodeError)"

definition ascii :: "string \<Rightarrow> pystr" where
  \<comment> \<open>an ASCII literal of the source, as code points\<close>
  "ascii s = map of_char s"

definition sep :: pystr where
  \<comment> \<open>the separator literal: space, em dash, space\<close>
  "sep = [32, 8212, 32]"

subsection \<open>\<open>str.strip()\<close>\<close>

definition whitespace_table :: "codepoint list" where
  "whitespace_table =
     [9, 10, 11, 12, 13, 28, 29, 30, 31, 32, 133, 160, 5760,
      8192, 8193, 8194, 8195, 8196, 8197, 8198, 8199, 8200, 8201, 8202,
      8232, 8233, 8239, 8287, 12288]"

definition isspace :: "codepoint \<Rightarrow> bool" where
  \<comment> \<open>\<open>Py_UNICODE_ISSPACE\<close>: what \<open>strip()\<close> without argument removes\<close>
  "isspace c = (c \<in> set whitespace_table)"

definition strip :: "pystr \<Rightarrow> pystr" where
  "strip s = rev (dropWhile isspace (rev (dropWhile isspace s)))"

subsection \<open>\<open>sub in s\<close> and \<open>s.split(sep, 1)\<close>\<close>

fun py_find :: "pystr \<Rightarrow> pystr \<Rightarrow> nat option" where
  \<comment> \<open>\<open>s.find(sub)\<close>: the lowest index where \<open>sub\<close> occurs, \<open>None\<close> for \<open>-1\<close>\<close>
  "py_find sub [] = (if sub = [] then Some 0 else None)"
| "py_find sub (c # cs) =
     (if prefix sub (c # cs) then Some 0 else map_option Suc (py_find sub cs))"

definition py_in :: "pystr \<Rightarrow> pystr \<Rightarrow> bool" where
  "py_in sub s = (py_find sub s \<noteq> None)"

definition split1 :: "pystr \<Rightarrow> pystr \<Rightarrow> py_error + pystr list" where
  \<comment> \<open>\<open>s.split(sp, 1)\<close>: at most one cut, at the first occurrence; an empty separator raises\<close>
  "split1 sp s =
     (if sp = [] then Inl ValueError
      else case py_find sp s of
             None \<Rightarrow> Inr [s]
           | Some k \<Rightarrow> Inr [take k s, drop (k + length sp) s])"

subsection \<open>\<open>int(s)\<close>\<close>

definition decimal_zeros :: "codepoint list" where
  \<comment> \<open>the digit zero of every decimal digit run (general category Nd); the run is the
      ten code points from there\<close>
  "decimal_zeros =
     [48, 1632, 1776, 1984, 2406, 2534, 2662, 2790, 2918, 3046, 3174, 3302, 3430,
      3558, 3664, 3792, 3872, 4160, 4240, 6112, 6160, 6470, 6608, 6784, 6800, 6992,
      7088, 7232, 7248, 42528, 43216, 43264, 43472, 43504, 43600, 44016, 65296,
      66720, 68912, 69734, 69872, 69942, 70096, 70384, 70736, 70864, 71248, 71360,
      71472, 71904, 72016, 72784, 73040, 73120, 92768, 92864, 93008, 120782, 120792,
      120802, 120812, 120822, 123200, 123632, 125264, 130032]"

definition todecimal :: "codepoint \<Rightarrow> nat option" where
  \<comment> \<open>\<open>Py_UNICODE_TODECIMAL\<close>, \<open>None\<close> for \<open>-1\<close>\<close>
  "todecimal c =
     map_option (\<lambda>z. c - z) (List.find (\<lambda>z. z \<le> c \<and> c < z + 10) decimal_zeros)"

fun transform :: "pystr \<Rightarrow> pystr" where
  \<comment> \<open>the loop of \<open>_PyUnicode_TransformDecimalAndSpaceToASCII\<close>: it stops after the
      first character that is neither ASCII, nor a space, nor a decimal digit\<close>
  "transform [] = []"
| "transform (c # cs) =
     (if c < 127 then c # transform cs
      else if isspace c then 32 # transform cs
      else case todecimal c of
             None \<Rightarrow> [63]
           | Some d \<Rightarrow> (48 + d) # transform cs)"

definition to_ascii :: "pystr \<Rightarrow> pystr" where
  \<comment> \<open>an ASCII string is handed on as it is\<close>
  "to_ascii s = (if list_all (\<lambda>c. c < 128) s then s else transform s)"

definition c_isspace :: "codepoint \<Rightarrow> bool" where
  \<comment> \<open>\<open>Py_ISSPACE\<close>, the C locale's white space\<close>
  "c_isspace c = (c = 32 \<or> (9 \<le> c \<and> c \<le> 13))"

definition is_digit :: "codepoint \<Rightarrow> bool" where
  "is_digit c = (48 \<le> c \<and> c \<le> 57)"

fun scan :: "codepoint \<Rightarrow> nat \<Rightarrow> nat \<Rightarrow> pystr \<Rightarrow> (nat \<times> nat \<times> pystr) option" where
  \<comment> \<open>the digit loop of \<open>PyLong_FromString\<close> in base 10, from the previous character,
      the count of digits and the value so far: digits and single underscores are
      consumed, \<open>None\<close> is the jump to \<open>onError\<close>, otherwise the value, the count
      and the unread rest\<close>
  "scan prev digits acc [] =
     (if prev = 95 then None else Some (acc, digits, []))"
| "scan prev digits acc (c # cs) =
     (if c = 95 then (if prev = 95 then None else scan 95 digits acc cs)
      else if is_digit c then scan c (Suc digits) (acc * 10 + (c - 48)) cs
      else if prev = 95 then None
      else Some (acc, digits, c # cs))"

definition split_sign :: "pystr \<Rightarrow> int \<times> pystr" where
  \<comment> \<open>\<open>if (*str == '+') ++str; else if (*str == '-') { ++str; sign = -1; }\<close>\<close>
  "split_sign s =
     (case s of
        [] \<Rightarrow> (1, [])
      | c # r \<Rightarrow> if c = 43 then (1, r) else if c = 45 then (- 1, r) else (1, s))"

definition exceeds_limit :: "nat \<Rightarrow> nat \<Rightarrow> bool" where
  \<comment> \<open>the check of the digit count against \<open>sys.get_int_max_str_digits()\<close>, a setting
      of the interpreter: counts up to 640 are never checked, and the limit 0 is no
      limit\<close>
  "exceeds_limit lim digits = (640 < digits \<and> 0 < lim \<and> lim < digits)"

definition long_from_digits_lim :: "nat \<Rightarrow> int \<Rightarrow> pystr \<Rightarrow> py_error + int" where
  \<comment> \<open>\<open>PyLong_FromString\<close> in base 10 from behind the sign: no leading underscore, the
      digit loop, the limit on the number of digits, at least one digit, and nothing
      but white space up to the end of the buffer\<close>
  "long_from_digits_lim lim sign str =
     (if take 1 str = [95] then Inl ValueError
      else case scan 0 0 0 str of
             None \<Rightarrow> Inl ValueError
           | Some (z, digits, rest) \<Rightarrow>
               if exceeds_limit lim digits then Inl ValueError
               else if digits = 0 then Inl ValueError
               else if dropWhile c_isspace rest \<noteq> [] then Inl ValueError
               else Inr (sign * int z))"

definition py_int_lim :: "nat \<Rightarrow> pystr \<Rightarrow> py_error + int" where
  \<comment> \<open>\<open>int(s)\<close> for a string, \<open>PyLong_FromUnicodeObject(s, 10)\<close>, in an interpreter
      whose digit limit is \<open>lim\<close>\<close>
  "py_int_lim lim s =
     (let (sign, str) = split_sign (dropWhile c_isspace (to_ascii s))
      in long_from_digits_lim lim sign str)"

definition max_str_digits :: nat where
  \<comment> \<open>\<open>sys.get_int_max_str_digits()\<close> as the interpreter starts when nothing sets it\<close>
  "max_str_digits = 4300"

definition long_from_digits :: "int \<Rightarrow> pystr \<Rightarrow> py_error + int" where
  "long_from_digits = long_from_digits_lim max_str_digits"

definition py_int :: "pystr \<Rightarrow> py_error + int" where
  \<comment> \<open>\<open>int(s)\<close> under the default limit\<close>
  "py_int = py_int_lim max_str_digits"

subsection \<open>\<open>str(i)\<close>\<close>

fun str_nat :: "nat \<Rightarrow> pystr" where
  \<comment> \<open>the decimal digits of a line number; line numbers stay far below the
      \<open>10 ^ 4300\<close> from which \<open>str\<close> would refuse to convert\<close>
  "str_nat n = (if n < 10 then [48 + n] else str_nat (n div 10) @ [48 + n mod 10])"

declare str_nat.simps [simp del]

subsection \<open>The script\<close>

record item =
  id_field :: pystr
  title :: pystr
  year :: "int option"
  rating :: int

definition parse_year_lim :: "nat \<Rightarrow> pystr \<Rightarrow> py_error + int option" where
  \<comment> \<open>\<open>try: year = int(year_str)\<close>, \<open>except ValueError: year = None\<close>\<close>
  "parse_year_lim lim year_str =
     (case py_int_lim lim year_str of
        Inr n \<Rightarrow> Inr (Some n)
      | Inl e \<Rightarrow> if is_ValueError e then Inr None else Inl e)"

definition loop_body_lim :: "nat \<Rightarrow> nat \<Rightarrow> pystr \<Rightarrow> py_error + item option" where
  \<comment> \<open>one round of the \<open>for\<close> loop on line number \<open>i\<close>, in an interpreter whose digit
      limit is \<open>lim\<close>: \<open>Inr None\<close> is \<open>continue\<close>, \<open>Inr (Some d)\<close> the dictionary
      appended\<close>
  "loop_body_lim lim i raw =
     (let line = strip raw in
      if line = [] then Inr None
      else if py_in sep line then
        (case split1 sep line of
           Inl e \<Rightarrow> Inl e
         | Inr [title0, year_str0] \<Rightarrow>
             (let title1 = strip title0; year_str = strip year_str0 in
              case parse_year_lim lim year_str of
                Inl e \<Rightarrow> Inl e
              | Inr year1 \<Rightarrow>
                  Inr (Some \<lparr>id_field = str_nat i, title = title1, year = year1, rating = 0\<rparr>))
         | Inr _ \<Rightarrow> Inl ValueError)
      else Inr (Some \<lparr>id_field = str_nat i, title = line, year = None, rating = 0\<rparr>))"

fun read_loop_lim ::
  "nat \<Rightarrow> nat \<Rightarrow> (py_error + pystr) list \<Rightarrow> item list \<Rightarrow> py_error + item list" where
  \<comment> \<open>\<open>for i, line in enumerate(f, start=1)\<close>: the file hands out its lines one by one,
      and a read may raise instead of returning a line\<close>
  "read_loop_lim lim i [] items = Inr items"
| "read_loop_lim lim i (Inl e # rest) items = Inl e"
| "read_loop_lim lim i (Inr line # rest) items =
     (case loop_body_lim lim i line of
        Inl e \<Rightarrow> Inl e
      | Inr None \<Rightarrow> read_loop_lim lim (Suc i) rest items
      | Inr (Some d) \<Rightarrow> read_loop_lim lim (Suc i) rest (items @ [d]))"

definition convert_lim :: "nat \<Rightarrow> pystr list \<Rightarrow> py_error + item list" where
  \<comment> \<open>the loop on a file whose every line is read without error\<close>
  "convert_lim lim lines = read_loop_lim lim 1 (map Inr lines) []"

definition loop_body :: "nat \<Rightarrow> pystr \<Rightarrow> py_error + item option" where
  \<comment> \<open>the loop body under the default limit\<close>
  "loop_body = loop_body_lim max_str_digits"

definition convert :: "pystr list \<Rightarrow> py_error + item list" where
  \<comment> \<open>the loop under the default limit\<close>
  "convert = convert_lim max_str_digits"

subsection \<open>\<open>json.dump(items, sys.stdout, ensure_ascii=False, indent=2)\<close>\<close>













subsection \<open>The whole run\<close>




subsection \<open>Notions of the specification\<close>

definition base10 :: "nat list \<Rightarrow> nat" where
  \<comment> \<open>the number a sequence of digit values denotes\<close>
  "base10 ds = foldl (\<lambda>a d. 10 * a + d) 0 ds"

definition decimal_value :: "pystr \<Rightarrow> nat" where
  \<comment> \<open>a string of ASCII digits read as an integer\<close>
  "decimal_value s = base10 (map (\<lambda>c. c - 48) s)"

definition plain_decimal :: "pystr \<Rightarrow> int option" where
  \<comment> \<open>an optionally signed base-10 integer and no other character: an optional
      \<open>+\<close> or \<open>-\<close>, then one or more of the digits 0 to 9\<close>
  "plain_decimal s =
     (let (sg, ds) = split_sign s in
      if ds \<noteq> [] \<and> list_all is_digit ds then Some (sg * int (decimal_value ds)) else None)"

definition literal_char :: "codepoint \<Rightarrow> bool" where
  \<comment> \<open>an underscore or a decimal digit of any script\<close>
  "literal_char c = (c = 95 \<or> todecimal c \<noteq> None)"

definition int_literal :: "pystr \<Rightarrow> int option" where
  \<comment> \<open>an optional sign, then decimal digits of any script in which single underscores
      may stand between two digits, at most 4300 digits in all\<close>
  "int_literal s =
     (let (sg, b) = split_sign s; ds = filter (\<lambda>c. c \<noteq> 95) b in
      if b \<noteq> [] \<and> list_all literal_char b \<and>
         hd b \<noteq> 95 \<and> last b \<noteq> 95 \<and> \<not> py_in [95, 95] b \<and> length ds \<le> 4300
      then Some (sg * int (base10 (map (\<lambda>c. the (todecimal c)) ds)))
      else None)"

definition asc :: "codepoint \<Rightarrow> codepoint" where
  \<comment> \<open>the ASCII character that stands for an underscore or a decimal digit\<close>
  "asc c = (if c = 95 then 95 else 48 + the (todecimal c))"

definition example_lines :: "pystr list" where
  \<comment> \<open>the four lines of the specification's example\<close>
  "example_lines =
     [ascii ''Breaking Bad'' @ sep @ ascii ''2008'',
      ascii ''The Wire'',
      [],
      ascii ''Chernobyl'' @ sep @ ascii ''miniseries'']"

definition example_file :: "pystr list" where
  \<comment> \<open>the same lines as a file hands them out, each with its newline\<close>
  "example_file = map (\<lambda>l. l @ [10]) example_lines"

definition example_items :: "item list" where
  "example_items =
     [\<lparr>id_field = ascii ''1'', title = ascii ''Breaking Bad'', year = Some 2008, rating = 0\<rparr>,
      \<lparr>id_field = ascii ''2'', title = ascii ''The Wire'', year = None, rating = 0\<rparr>,
      \<lparr>id_field = ascii ''4'', title = ascii ''Chernobyl'', year = None, rating = 0\<rparr>]"








section \<open>Facts about the library functions\<close>

lemma isspace_32: "isspace 32" by (simp add: isspace_def whitespace_table_def)
lemma not_isspace_dash: "\<not> isspace 8212" by (simp add: isspace_def whitespace_table_def)

lemma strip_Nil_iff: "strip s = [] \<longleftrightarrow> (\<forall>c\<in>set s. isspace c)"
proof
  assume "\<forall>c\<in>set s. isspace c"
  then have "dropWhile isspace s = []" by (rule dropWhile_eq_Nil_conv[THEN iffD2])
  then show "strip s = []" by (simp only: strip_def dropWhile.simps rev.simps)
next
  assume e: "strip s = []"
  let ?t = "dropWhile isspace s"
  have "dropWhile isspace (rev ?t) = []"
    using e unfolding strip_def by (simp only: rev_is_Nil_conv)
  then have "\<forall>x\<in>set (rev ?t). isspace x" by (rule dropWhile_eq_Nil_conv[THEN iffD1])
  then have all: "\<forall>x\<in>set ?t. isspace x" by (simp only: set_rev)
  have "?t = []"
  proof (rule ccontr)
    assume n: "?t \<noteq> []"
    then have "\<not> isspace (hd ?t)" by (rule hd_dropWhile)
    moreover have "hd ?t \<in> set ?t" using n by (rule hd_in_set)
    ultimately show False using all by blast
  qed
  then show "\<forall>c\<in>set s. isspace c" by (rule dropWhile_eq_Nil_conv[THEN iffD1])
qed

lemma strip_hd: "strip s \<noteq> [] \<Longrightarrow> \<not> isspace (hd (strip s))"
proof -
  assume a: "strip s \<noteq> []"
  let ?t = "dropWhile isspace s"
  have t: "?t \<noteq> []"
  proof
    assume "?t = []"
    then have "strip s = []" by (simp only: strip_def dropWhile.simps rev.simps)
    with a show False by simp
  qed
  then have h: "\<not> isspace (hd ?t)" by (rule hd_dropWhile)
  have "strip s = rev (dropWhile isspace (rev ?t))" by (simp add: strip_def)
  obtain c r where cr: "?t = c # r" using t by (cases ?t) auto
  with h have nc: "\<not> isspace c" by simp
  have "dropWhile isspace (rev r @ [c]) = dropWhile isspace (rev r) @ [c]"
    using nc by (simp add: dropWhile_append)
  hence "dropWhile isspace (rev r @ [c]) = (dropWhile isspace (rev r)) @ [c]" .
  hence "strip s = c # rev (dropWhile isspace (rev r))"
    using cr by (simp add: strip_def)
  thus ?thesis using nc by simp
qed

lemma strip_last: "strip s \<noteq> [] \<Longrightarrow> \<not> isspace (last (strip s))"
proof -
  assume a: "strip s \<noteq> []"
  let ?u = "dropWhile isspace (rev (dropWhile isspace s))"
  have u: "?u \<noteq> []" using a by (simp add: strip_def)
  then have "\<not> isspace (hd ?u)" by (rule hd_dropWhile)
  moreover have "last (strip s) = hd ?u" using u by (simp add: strip_def last_rev)
  ultimately show ?thesis by simp
qed

lemma strip_fixed: "s \<noteq> [] \<Longrightarrow> \<not> isspace (hd s) \<Longrightarrow> \<not> isspace (last s) \<Longrightarrow> strip s = s"
proof -
  assume a: "s \<noteq> []" "\<not> isspace (hd s)" "\<not> isspace (last s)"
  then have "dropWhile isspace s = s" by (cases s) auto
  moreover have "dropWhile isspace (rev s) = rev s" using a by (cases "rev s") (auto simp: last_rev[symmetric] hd_rev)
  ultimately show ?thesis by (simp add: strip_def)
qed

lemma strip_idem: "strip (strip s) = strip s"
proof (cases "strip s = []")
  case True
  have "strip [] = []" by (simp add: strip_def)
  with True show ?thesis by simp
next
  case False then show ?thesis by (intro strip_fixed strip_hd strip_last)
qed

lemma py_find_Some:
  "py_find sub s = Some k \<Longrightarrow> s = take k s @ sub @ drop (k + length sub) s"
proof (induction s arbitrary: k)
  case Nil then show ?case by (simp split: if_splits)
next
  case (Cons c cs)
  show ?case
  proof (cases "prefix sub (c # cs)")
    case True
    then obtain r where "c # cs = sub @ r" by (auto simp: prefix_def)
    moreover have "k = 0" using Cons.prems True by simp
    ultimately show ?thesis by simp
  next
    case False
    then obtain j where j: "py_find sub cs = Some j" "k = Suc j" using Cons.prems by auto
    from Cons.IH[OF j(1)] show ?thesis using j(2) by simp
  qed
qed

lemma py_find_first:
  "py_find sub s = Some k \<Longrightarrow> s = p @ sub @ q \<Longrightarrow> k \<le> length p"
proof (induction s arbitrary: k p)
  case Nil then show ?case by (simp split: if_splits)
next
  case (Cons c cs)
  show ?case
  proof (cases "prefix sub (c # cs)")
    case True
    then have "k = 0" using Cons.prems(1) by simp
    then show ?thesis by simp
  next
    case False
    then obtain j where j: "py_find sub cs = Some j" "k = Suc j" using Cons.prems(1) by auto
    have "p \<noteq> []" using False Cons.prems(2) by (auto simp: prefix_def)
    then obtain p' where p': "p = c # p'" "cs = p' @ sub @ q" using Cons.prems(2) by (cases p) auto
    from Cons.IH[OF j(1) p'(2)] show ?thesis using j(2) p'(1) by simp
  qed
qed

lemma py_find_None: "py_find sub s = None \<Longrightarrow> s \<noteq> p @ sub @ q"
proof (induction s arbitrary: p)
  case Nil then show ?case by (simp split: if_splits)
next
  case (Cons c cs)
  have np: "\<not> prefix sub (c # cs)" and n: "py_find sub cs = None" using Cons.prems by (auto split: if_splits)
  show ?case
  proof
    assume e: "c # cs = p @ sub @ q"
    have "p \<noteq> []" using np e by (auto simp: prefix_def)
    then obtain p' where "p = c # p'" "cs = p' @ sub @ q" using e by (cases p) auto
    with Cons.IH[OF n] show False by blast
  qed
qed

lemma py_in_iff: "py_in sub s \<longleftrightarrow> (\<exists>p q. s = p @ sub @ q)"
proof
  assume "py_in sub s"
  then obtain k where "py_find sub s = Some k" by (auto simp: py_in_def)
  from py_find_Some[OF this] show "\<exists>p q. s = p @ sub @ q" by blast
next
  assume "\<exists>p q. s = p @ sub @ q"
  then show "py_in sub s" using py_find_None[of sub s] by (auto simp: py_in_def)
qed

lemma long_from_digits_unfold:
  "long_from_digits sign str =
     (if take 1 str = [95] then Inl ValueError
      else case scan 0 0 0 str of
             None \<Rightarrow> Inl ValueError
           | Some (z, digits, rest) \<Rightarrow>
               if max_str_digits < digits then Inl ValueError
               else if digits = 0 then Inl ValueError
               else if dropWhile c_isspace rest \<noteq> [] then Inl ValueError
               else Inr (sign * int z))"
  by (auto simp: long_from_digits_def long_from_digits_lim_def exceeds_limit_def
        max_str_digits_def split: option.splits)

lemma py_int_unfold:
  "py_int s =
     (let (sign, str) = split_sign (dropWhile c_isspace (to_ascii s))
      in long_from_digits sign str)"
  by (simp add: py_int_def py_int_lim_def long_from_digits_def)

lemma py_int_lim_error: "py_int_lim lim s = Inl e \<Longrightarrow> e = ValueError"
  by (auto simp: py_int_lim_def long_from_digits_lim_def
        split: if_splits option.splits prod.splits)

lemma parse_year_lim_total:
  "parse_year_lim lim s = Inr (case py_int_lim lim s of Inr n \<Rightarrow> Some n | Inl e \<Rightarrow> None)"
  using py_int_lim_error[of lim s]
  by (auto simp: parse_year_lim_def is_ValueError_def split: sum.splits)

section \<open>The loop body and the loop\<close>

lemma loop_body_lim_eq:
  "loop_body_lim lim i raw =
     (if strip raw = [] then Inr None
      else case py_find sep (strip raw) of
             None \<Rightarrow> Inr (Some \<lparr>id_field = str_nat i, title = strip raw, year = None, rating = 0\<rparr>)
           | Some k \<Rightarrow>
               Inr (Some \<lparr>id_field = str_nat i, title = strip (take k (strip raw)),
                          year = (case py_int_lim lim (strip (drop (k + 3) (strip raw))) of
                                    Inr n \<Rightarrow> Some n | Inl e \<Rightarrow> None),
                          rating = 0\<rparr>))"
proof -
  have l: "length sep = 3" and n: "sep \<noteq> []" by (simp_all add: sep_def)
  show ?thesis
    by (simp add: loop_body_lim_def Let_def py_in_def split1_def parse_year_lim_total l n
             split: option.splits)
qed

lemma loop_body_lim_total: "\<exists>r. loop_body_lim lim i raw = Inr r"
  by (simp add: loop_body_lim_eq split: option.splits)

lemma loop_body_lim_None_iff: "loop_body_lim lim i raw = Inr None \<longleftrightarrow> strip raw = []"
  by (simp add: loop_body_lim_eq split: option.splits)

lemma loop_body_unfold:
  "loop_body i raw =
     (let line = strip raw in
      if line = [] then Inr None
      else if py_in sep line then
        (case split1 sep line of
           Inl e \<Rightarrow> Inl e
         | Inr [title0, year_str0] \<Rightarrow>
             (let title1 = strip title0; year_str = strip year_str0 in
              case parse_year_lim max_str_digits year_str of
                Inl e \<Rightarrow> Inl e
              | Inr year1 \<Rightarrow>
                  Inr (Some \<lparr>id_field = str_nat i, title = title1, year = year1, rating = 0\<rparr>))
         | Inr _ \<Rightarrow> Inl ValueError)
      else Inr (Some \<lparr>id_field = str_nat i, title = line, year = None, rating = 0\<rparr>))"
  by (simp only: loop_body_def loop_body_lim_def)

lemma loop_body_eq:
  "loop_body i raw =
     (if strip raw = [] then Inr None
      else case py_find sep (strip raw) of
             None \<Rightarrow> Inr (Some \<lparr>id_field = str_nat i, title = strip raw, year = None, rating = 0\<rparr>)
           | Some k \<Rightarrow>
               Inr (Some \<lparr>id_field = str_nat i, title = strip (take k (strip raw)),
                          year = (case py_int (strip (drop (k + 3) (strip raw))) of
                                    Inr n \<Rightarrow> Some n | Inl e \<Rightarrow> None),
                          rating = 0\<rparr>))"
  unfolding loop_body_def py_int_def by (rule loop_body_lim_eq)

lemma loop_body_total: "\<exists>r. loop_body i raw = Inr r"
  by (simp add: loop_body_eq split: option.splits)

lemma loop_body_None_iff: "loop_body i raw = Inr None \<longleftrightarrow> strip raw = []"
  by (simp add: loop_body_eq split: option.splits)

lemma loop_body_id: "loop_body i raw = Inr (Some d) \<Longrightarrow> id_field d = str_nat i"
  by (auto simp: loop_body_eq split: option.splits if_splits)

lemma loop_body_rating: "loop_body i raw = Inr (Some d) \<Longrightarrow> rating d = 0"
  by (auto simp: loop_body_eq split: option.splits if_splits)

lemma read_loop_lines:
  "\<exists>out. read_loop_lim lim i (map Inr lines) items = Inr (items @ out) \<and>
         list_all2 (\<lambda>d (j, l). loop_body_lim lim j l = Inr (Some d)) out
           (filter (\<lambda>(j, l). strip l \<noteq> []) (List.enumerate i lines))"
proof (induction lines arbitrary: i items)
  case Nil
  show ?case by simp
next
  case (Cons l ls)
  obtain r where r: "loop_body_lim lim i l = Inr r" using loop_body_lim_total by blast
  show ?case
  proof (cases r)
    case None
    then have b: "strip l = []" using r loop_body_lim_None_iff by simp
    obtain out where
      "read_loop_lim lim (Suc i) (map Inr ls) items = Inr (items @ out)"
      "list_all2 (\<lambda>d (j, l). loop_body_lim lim j l = Inr (Some d)) out
           (filter (\<lambda>(j, l). strip l \<noteq> []) (List.enumerate (Suc i) ls))"
      using Cons.IH[of "Suc i" items] by blast
    then show ?thesis using r None b by auto
  next
    case (Some d)
    then have b: "strip l \<noteq> []" using r loop_body_lim_None_iff[of lim i l] by auto
    obtain out where
      "read_loop_lim lim (Suc i) (map Inr ls) (items @ [d]) = Inr ((items @ [d]) @ out)"
      "list_all2 (\<lambda>d (j, l). loop_body_lim lim j l = Inr (Some d)) out
           (filter (\<lambda>(j, l). strip l \<noteq> []) (List.enumerate (Suc i) ls))"
      using Cons.IH[of "Suc i" "items @ [d]"] by blast
    then show ?thesis using r Some b by auto
  qed
qed

lemma convert_lim_lines:
  "\<exists>items. convert_lim lim lines = Inr items \<and>
         list_all2 (\<lambda>d (j, l). loop_body_lim lim j l = Inr (Some d)) items
           (filter (\<lambda>(j, l). strip l \<noteq> []) (List.enumerate 1 lines))"
  using read_loop_lines[of lim 1 lines "[]"] by (simp add: convert_lim_def)

lemma convert_lines:
  "\<exists>items. convert lines = Inr items \<and>
         list_all2 (\<lambda>d (j, l). loop_body j l = Inr (Some d)) items
           (filter (\<lambda>(j, l). strip l \<noteq> []) (List.enumerate 1 lines))"
  unfolding convert_def loop_body_def by (rule convert_lim_lines)

section \<open>Evaluation on concrete lines\<close>

lemmas eval_defs =
  convert_def convert_lim_def loop_body_def loop_body_lim_def strip_def isspace_def
  whitespace_table_def sep_def ascii_def py_in_def split1_def parse_year_lim_def
  is_ValueError_def py_int_def py_int_lim_def split_sign_def long_from_digits_def
  long_from_digits_lim_def exceeds_limit_def to_ascii_def c_isspace_def is_digit_def
  max_str_digits_def str_nat.simps

lemma example_run: "convert example_lines = Inr example_items"
  by (simp add: example_lines_def example_items_def eval_defs)

lemma example_file_run: "convert example_file = Inr example_items"
  by (simp add: example_file_def example_lines_def example_items_def eval_defs)

section \<open>Records and the lines they come from\<close>

lemma list_all2_origin:
  "list_all2 R xs ys \<Longrightarrow> x \<in> set xs \<Longrightarrow> \<exists>y\<in>set ys. R x y"
  by (induction rule: list_all2_induct) auto

lemma convert_total: "\<exists>items. convert lines = Inr items"
  using convert_lines by blast

lemma convert_emitted:
  assumes "convert lines = Inr items" and "d \<in> set items"
  shows "\<exists>j l. loop_body j l = Inr (Some d) \<and> strip l \<noteq> [] \<and>
               (j, l) \<in> set (List.enumerate 1 lines)"
proof -
  obtain items' where c: "convert lines = Inr items'"
    and a: "list_all2 (\<lambda>d (j, l). loop_body j l = Inr (Some d)) items'
              (filter (\<lambda>(j, l). strip l \<noteq> []) (List.enumerate 1 lines))"
    using convert_lines by blast
  have "items' = items" using c assms(1) by simp
  with list_all2_origin[OF a] assms(2) show ?thesis by fastforce
qed

lemma filter_enumerate_snd:
  "map snd (filter (\<lambda>(j, l). P l) (List.enumerate n xs)) = filter P xs"
  by (induction xs arbitrary: n) auto

lemma base10_snoc: "base10 (ds @ [d]) = 10 * base10 ds + d"
  by (simp add: base10_def)

lemma decimal_value_str_nat: "decimal_value (str_nat n) = n"
proof (induction n rule: str_nat.induct)
  case (1 n)
  show ?case
  proof (cases "n < 10")
    case True
    then show ?thesis by (simp add: str_nat.simps[of n] decimal_value_def base10_def)
  next
    case False
    then have "decimal_value (str_nat (n div 10)) = n div 10" using 1 by simp
    then show ?thesis
      using False by (simp add: str_nat.simps[of n] decimal_value_def base10_snoc)
  qed
qed

lemma sorted_fst_filter_enumerate:
  "sorted_wrt (<) (map fst (filter P (List.enumerate n xs)))"
proof -
  have "sorted_wrt (<) (map fst (List.enumerate n xs))"
    unfolding map_fst_enumerate by (rule sorted_wrt_upt)
  then have "sorted_wrt (\<lambda>p q. fst p < fst q) (List.enumerate n xs)"
    by (simp only: sorted_wrt_map)
  then have "sorted_wrt (\<lambda>p q. fst p < fst q) (filter P (List.enumerate n xs))"
    by (rule sorted_wrt_filter)
  then show ?thesis by (simp only: sorted_wrt_map)
qed

lemma list_all2_map_eq:
  "list_all2 (\<lambda>x y. f x = g y) xs ys \<Longrightarrow> map f xs = map g ys"
  by (induction rule: list_all2_induct) auto

lemma py_find_bound: "py_find sub s = Some k \<Longrightarrow> k + length sub \<le> length s"
proof (induction s arbitrary: k)
  case Nil then show ?case by (simp split: if_splits)
next
  case (Cons c cs)
  show ?case
  proof (cases "prefix sub (c # cs)")
    case True
    then have "k = 0" using Cons.prems by simp
    then show ?thesis using True prefix_length_le by fastforce
  next
    case False
    then obtain j where j: "py_find sub cs = Some j" "k = Suc j" using Cons.prems by auto
    from Cons.IH[OF j(1)] show ?thesis using j(2) by simp
  qed
qed

lemma loop_body_title: "loop_body i raw = Inr (Some d) \<Longrightarrow> title d \<noteq> []"
proof -
  assume a: "loop_body i raw = Inr (Some d)"
  let ?line = "strip raw"
  have ne: "?line \<noteq> []" using a loop_body_None_iff[of i raw] by (auto simp: loop_body_eq)
  show ?thesis
  proof (cases "py_find sep ?line")
    case None
    then show ?thesis using a ne by (auto simp: loop_body_eq)
  next
    case (Some k)
    then have t: "title d = strip (take k ?line)" using a ne by (auto simp: loop_body_eq)
    have dec: "?line = take k ?line @ sep @ drop (k + length sep) ?line"
      using Some by (rule py_find_Some)
    have "k \<noteq> 0"
    proof
      assume "k = 0"
      then have "hd ?line = 32" using dec by (metis append_Nil hd_append2 list.sel(1) sep_def take0 not_Cons_self2 append_Cons)
      then show False using strip_hd[OF ne] isspace_32 by simp
    qed
    then have "hd ?line \<in> set (take k ?line)" using ne by (cases ?line; cases k) auto
    then have "\<exists>c\<in>set (take k ?line). \<not> isspace c" using strip_hd[OF ne] by blast
    then show ?thesis unfolding t using strip_Nil_iff by blast
  qed
qed

lemma split1_parts:
  assumes "split1 sep raw = Inr [pre, ws]"
  shows "raw = pre @ sep @ ws" and "py_find sep raw = Some (length pre)"
proof -
  have n: "sep \<noteq> []" and l: "length sep = 3" by (simp_all add: sep_def)
  obtain k where k: "py_find sep raw = Some k" "pre = take k raw" "ws = drop (k + 3) raw"
    using assms n l by (auto simp: split1_def split: option.splits)
  from py_find_bound[OF k(1)] have "k \<le> length raw" by simp
  then have lp: "length pre = k" using k(2) by simp
  show "raw = pre @ sep @ ws" using py_find_Some[OF k(1)] k(2,3) l by simp
  show "py_find sep raw = Some (length pre)" using k(1) lp by simp
qed

lemma strip_trailing_separator:
  assumes "\<forall>c\<in>set ws. isspace c"
  shows "strip (pre @ sep @ ws) = dropWhile isspace (pre @ [32, 8212])"
proof -
  let ?t = "dropWhile isspace (pre @ [32])"
  have d: "dropWhile isspace (pre @ [32, 8212]) = ?t @ [8212]"
    using dropWhile_append3[of isspace 8212 "pre @ [32]" "[]"] not_isspace_dash by simp
  have "dropWhile isspace (pre @ sep @ ws) = ?t @ [8212] @ 32 # ws"
    using dropWhile_append3[of isspace 8212 "pre @ [32]" "32 # ws"] not_isspace_dash
    by (simp add: sep_def)
  moreover have "dropWhile isspace (rev (?t @ [8212] @ 32 # ws)) = 8212 # rev ?t"
    using assms isspace_32 not_isspace_dash
    by (simp add: dropWhile_append)
  ultimately show ?thesis by (simp add: strip_def d)
qed

section \<open>The run as a whole\<close>



section \<open>What \<open>int\<close> accepts\<close>

text \<open>Some strings and what \<open>int\<close> makes of them.\<close>

lemma py_int_samples:
  "py_int (ascii ''2008'') = Inr 2008"
  "py_int (ascii ''+5'') = Inr 5"
  "py_int (ascii ''-5'') = Inr (- 5)"
  "py_int (ascii ''0_0'') = Inr 0"
  "py_int (ascii '' 12 '') = Inr 12"
  "py_int [160, 1633, 95, 1634, 12288] = Inr 12"
  "py_int (ascii '''') = Inl ValueError"
  "py_int (ascii ''+ 5'') = Inl ValueError"
  "py_int (ascii ''--1'') = Inl ValueError"
  "py_int (ascii ''1__2'') = Inl ValueError"
  "py_int (ascii ''_1'') = Inl ValueError"
  "py_int (ascii ''1_'') = Inl ValueError"
  "py_int (ascii ''1 2'') = Inl ValueError"
  "py_int (ascii ''0x10'') = Inl ValueError"
  "py_int (ascii ''1.0'') = Inl ValueError"
  "py_int [49, 0, 50] = Inl ValueError"
  "py_int [28, 53] = Inl ValueError"
  "py_int [178] = Inl ValueError"
  "py_int (ascii ''miniseries'') = Inl ValueError"
  by (simp_all add: py_int_unfold split_sign_def long_from_digits_unfold to_ascii_def
        c_isspace_def is_digit_def max_str_digits_def ascii_def isspace_def
        whitespace_table_def todecimal_def decimal_zeros_def)

subsection \<open>The tables\<close>

lemma todecimal_less: "todecimal c = Some d \<Longrightarrow> d < 10"
proof -
  assume "todecimal c = Some d"
  then obtain z where "List.find (\<lambda>z. z \<le> c \<and> c < z + 10) decimal_zeros = Some z" "d = c - z"
    by (auto simp: todecimal_def)
  then show ?thesis by (auto simp: find_Some_iff)
qed

lemma decimal_zeros_split: "decimal_zeros = 48 # tl decimal_zeros"
  by (simp add: decimal_zeros_def)

lemma decimal_zeros_tl: "z \<in> set (tl decimal_zeros) \<Longrightarrow> 128 \<le> z"
proof -
  have "list_all (\<lambda>z. 128 \<le> z) (tl decimal_zeros)"
    by (simp add: decimal_zeros_def)
  then show "z \<in> set (tl decimal_zeros) \<Longrightarrow> 128 \<le> z"
    by (simp add: list_all_iff)
qed

lemma todecimal_ascii:
  assumes "c < 128"
  shows "todecimal c = (if is_digit c then Some (c - 48) else None)"
proof -
  let ?P = "\<lambda>z. z \<le> c \<and> c < z + 10"
  have "List.find ?P (tl decimal_zeros) = None"
    using decimal_zeros_tl assms by (fastforce simp: find_None_iff)
  then have "List.find ?P decimal_zeros = (if ?P 48 then Some 48 else None)"
    by (subst decimal_zeros_split) simp
  then show ?thesis by (auto simp: todecimal_def is_digit_def)
qed

lemma isspace_not_decimal: "isspace c \<Longrightarrow> todecimal c = None"
proof -
  have "list_all (\<lambda>c. todecimal c = None) whitespace_table"
    by (simp add: whitespace_table_def todecimal_def decimal_zeros_def)
  then show "isspace c \<Longrightarrow> todecimal c = None"
    by (simp add: isspace_def list_all_iff)
qed

lemma c_isspace_isspace: "c_isspace c \<Longrightarrow> isspace c"
proof -
  assume "c_isspace c"
  then have "c = 32 \<or> c = 9 \<or> c = 10 \<or> c = 11 \<or> c = 12 \<or> c = 13"
    unfolding c_isspace_def by arith
  then show ?thesis by (auto simp: isspace_def whitespace_table_def)
qed

subsection \<open>The conversion to ASCII\<close>

lemma asc_95: "literal_char c \<Longrightarrow> asc c = 95 \<longleftrightarrow> c = 95"
  using todecimal_less[of c] by (auto simp: asc_def literal_char_def)

lemma asc_digit: "literal_char c \<Longrightarrow> c \<noteq> 95 \<Longrightarrow> is_digit (asc c) \<and> asc c - 48 = the (todecimal c)"
  using todecimal_less[of c] by (auto simp: asc_def literal_char_def is_digit_def)

lemma asc_ascii: "literal_char c \<Longrightarrow> c < 128 \<Longrightarrow> asc c = c"
  by (auto simp: asc_def literal_char_def todecimal_ascii is_digit_def split: if_splits)

lemma not_literal_ascii: "\<not> literal_char c \<Longrightarrow> c < 128 \<Longrightarrow> c \<noteq> 95 \<and> \<not> is_digit c"
  by (auto simp: literal_char_def todecimal_ascii)

lemma transform_literal:
  "\<forall>c\<in>set b. literal_char c \<Longrightarrow> transform b = map asc b"
proof (induction b)
  case Nil
  show ?case by simp
next
  case (Cons c cs)
  then have l: "literal_char c" and IH: "transform cs = map asc cs" by simp_all
  show ?case
  proof (cases "c < 127")
    case True
    then show ?thesis using asc_ascii[OF l] IH by simp
  next
    case False
    then have "c \<noteq> 95" by simp
    then obtain d where d: "todecimal c = Some d" using l by (auto simp: literal_char_def)
    then have "\<not> isspace c" using isspace_not_decimal by fastforce
    then show ?thesis using False d \<open>c \<noteq> 95\<close> IH by (simp add: asc_def)
  qed
qed

lemma transform_stop:
  "\<exists>c\<in>set b. \<not> literal_char c \<Longrightarrow> \<exists>a\<in>set (transform b). a \<noteq> 95 \<and> \<not> is_digit a"
proof (induction b)
  case Nil
  then show ?case by simp
next
  case (Cons c cs)
  show ?case
  proof (cases "literal_char c")
    case True
    then have "\<exists>a\<in>set (transform cs). a \<noteq> 95 \<and> \<not> is_digit a" using Cons by auto
    moreover have "\<exists>x. transform (c # cs) = x # transform cs"
    proof (cases "c < 127")
      case True then show ?thesis by simp
    next
      case False
      then have "c \<noteq> 95" by simp
      then obtain d where d: "todecimal c = Some d" using True by (auto simp: literal_char_def)
      then have "\<not> isspace c" using isspace_not_decimal by fastforce
      then show ?thesis using False d by simp
    qed
    ultimately show ?thesis by auto
  next
    case False
    show ?thesis
    proof (cases "c < 127")
      case True
      then show ?thesis using not_literal_ascii[OF False] by simp
    next
      case nascii: False
      have "todecimal c = None" using False by (simp add: literal_char_def)
      then show ?thesis using nascii by (simp add: is_digit_def)
    qed
  qed
qed

lemma transform_Nil: "transform b = [] \<longleftrightarrow> b = []"
  by (cases b) (auto split: option.splits)

lemma transform_last:
  "b \<noteq> [] \<Longrightarrow> \<not> isspace (last b) \<Longrightarrow> \<not> c_isspace (last (transform b))"
proof (induction b)
  case Nil
  then show ?case by simp
next
  case (Cons c cs)
  show ?case
  proof (cases "cs = []")
    case True
    then have ns: "\<not> isspace c" using Cons.prems by simp
    then have "\<not> c_isspace c" using c_isspace_isspace by blast
    then show ?thesis using True ns by (auto simp: c_isspace_def split: option.splits)
  next
    case False
    then have IH: "\<not> c_isspace (last (transform cs))" using Cons by simp
    have ne: "transform cs \<noteq> []" using False by (simp add: transform_Nil)
    show ?thesis using IH ne by (auto simp: c_isspace_def split: option.splits)
  qed
qed

lemma transform_hd:
  "b \<noteq> [] \<Longrightarrow> \<not> isspace (hd b) \<Longrightarrow>
   \<not> c_isspace (hd (transform b)) \<and>
   (hd b = 43 \<or> hd b = 45 \<longrightarrow> transform b = hd b # transform (tl b)) \<and>
   (hd b \<noteq> 43 \<and> hd b \<noteq> 45 \<longrightarrow> hd (transform b) \<noteq> 43 \<and> hd (transform b) \<noteq> 45)"
proof (cases b)
  case Nil
  assume "b \<noteq> []" with Nil show ?thesis by simp
next
  case (Cons c cs)
  assume "\<not> isspace (hd b)"
  then have ns: "\<not> isspace c" using Cons by simp
  then have nc: "\<not> c_isspace c" using c_isspace_isspace by blast
  show ?thesis using Cons ns nc todecimal_less[of c]
    by (auto simp: c_isspace_def split: option.splits)
qed

subsection \<open>The digit loop\<close>

lemma dd_Nil: "\<not> py_in [95, 95] []" and dd_single: "\<not> py_in [95, 95] [x]"
  by (simp_all add: py_in_def)

lemma dd_Cons: "py_in [95, 95] (x # y # ys) \<longleftrightarrow> (x = 95 \<and> y = 95) \<or> py_in [95, 95] (y # ys)"
  by (auto simp: py_in_def)

lemma dd_head: "x \<noteq> 95 \<Longrightarrow> py_in [95, 95] (x # cs) = py_in [95, 95] cs"
  by (cases cs) (simp_all add: dd_Nil dd_single dd_Cons)

lemma scan_literal:
  assumes "\<forall>c\<in>set b. literal_char c"
  shows "scan prev n acc (map asc b) =
     (if \<not> py_in [95, 95] (prev # b) \<and> last (prev # b) \<noteq> 95
      then Some (foldl (\<lambda>a d. 10 * a + d) acc
                   (map (\<lambda>c. the (todecimal c)) (filter (\<lambda>c. c \<noteq> 95) b)),
                 n + length (filter (\<lambda>c. c \<noteq> 95) b), [])
      else None)"
  using assms
proof (induction b arbitrary: prev n acc)
  case Nil
  show ?case by (simp add: dd_single)
next
  case (Cons c cs)
  then have l: "literal_char c" and rest: "\<forall>c\<in>set cs. literal_char c" by simp_all
  note IH = Cons.IH[OF rest]
  show ?case
  proof (cases "c = 95")
    case True
    then have a: "asc c = 95" by (simp add: asc_def)
    show ?thesis
      using True a IH[of 95 n acc] by (simp add: dd_Cons)
  next
    case False
    have a: "asc c \<noteq> 95" using asc_95[OF l] False by simp
    have d: "is_digit (asc c)" "asc c - 48 = the (todecimal c)" using asc_digit[OF l False] by simp_all
    have p: "py_in [95, 95] (asc c # cs) = py_in [95, 95] (c # cs)"
      using a False by (simp add: dd_head)
    have q: "(last (asc c # cs) \<noteq> 95) = (last (c # cs) \<noteq> 95)"
      using a False by simp
    have r: "py_in [95, 95] (prev # c # cs) = py_in [95, 95] (c # cs)"
      using False by (simp add: dd_Cons)
    have "scan prev n acc (map asc (c # cs)) =
            scan (asc c) (Suc n) (acc * 10 + the (todecimal c)) (map asc cs)"
      using a d by simp
    also have "\<dots> = (if \<not> py_in [95, 95] (asc c # cs) \<and> last (asc c # cs) \<noteq> 95
      then Some (foldl (\<lambda>a d. 10 * a + d) (acc * 10 + the (todecimal c))
                   (map (\<lambda>c. the (todecimal c)) (filter (\<lambda>c. c \<noteq> 95) cs)),
                 Suc n + length (filter (\<lambda>c. c \<noteq> 95) cs), [])
      else None)"
      by (rule IH)
    finally show ?thesis
      unfolding p q using False r by (simp add: mult.commute)
  qed
qed

lemma scan_stops:
  "\<exists>a\<in>set t. a \<noteq> 95 \<and> \<not> is_digit a \<Longrightarrow>
   scan prev n acc t = None \<or>
   (\<exists>z m rest. scan prev n acc t = Some (z, m, rest) \<and> rest \<noteq> [] \<and> suffix rest t)"
proof (induction t arbitrary: prev n acc)
  case Nil
  then show ?case by simp
next
  case (Cons c cs)
  show ?case
  proof (cases "c = 95 \<or> is_digit c")
    case True
    then have "\<exists>a\<in>set cs. a \<noteq> 95 \<and> \<not> is_digit a" using Cons.prems by auto
    note IH = Cons.IH[OF this]
    show ?thesis
    proof (cases "c = 95")
      case c: True
      show ?thesis using c IH[of 95 n acc] by (auto simp: suffix_Cons)
    next
      case c: False
      then have "is_digit c" using True by simp
      then show ?thesis using c IH[of c "Suc n" "acc * 10 + (c - 48)"] by (auto simp: suffix_Cons)
    qed
  next
    case False
    then show ?thesis by auto
  qed
qed

lemma dropWhile_last: "rest \<noteq> [] \<Longrightarrow> \<not> P (last rest) \<Longrightarrow> dropWhile P rest \<noteq> []"
  by (auto simp: dropWhile_eq_Nil_conv)

lemma long_from_digits_stops:
  assumes "\<exists>a\<in>set t. a \<noteq> 95 \<and> \<not> is_digit a" and "\<not> c_isspace (last t)"
  shows "long_from_digits sg t = Inl ValueError"
proof -
  consider "scan 0 0 0 t = None"
    | z m rest where "scan 0 0 0 t = Some (z, m, rest)" "rest \<noteq> []" "suffix rest t"
    using scan_stops[OF assms(1), of 0 0 0] by auto
  then show ?thesis
  proof cases
    case 1
    then show ?thesis by (simp add: long_from_digits_unfold)
  next
    case 2
    then have "last rest = last t" by (auto simp: suffix_def)
    then have "dropWhile c_isspace rest \<noteq> []"
      using dropWhile_last[OF 2(2), of c_isspace] assms(2) by simp
    then show ?thesis using 2(1) by (simp add: long_from_digits_unfold)
  qed
qed

subsection \<open>\<open>int\<close> on a stripped string\<close>

lemma long_from_digits_literal:
  assumes img: "(list_all (\<lambda>c. c < 128) b \<and> t = b) \<or> t = transform b"
      and lst: "b = [] \<or> \<not> isspace (last b)"
      and sp: "split_sign s = (sg, b)"
  shows "long_from_digits sg t = (case int_literal s of Some n \<Rightarrow> Inr n | None \<Rightarrow> Inl ValueError)"
proof (cases "\<forall>c\<in>set b. literal_char c")
  case True
  have t: "t = map asc b"
    using img
  proof
    assume a: "list_all (\<lambda>c. c < 128) b \<and> t = b"
    then have "map asc b = b"
      using True asc_ascii by (intro map_idI) (auto simp: list_all_iff)
    with a show ?thesis by simp
  next
    assume "t = transform b"
    then show ?thesis using transform_literal[OF True] by simp
  qed
  show ?thesis
  proof (cases b)
    case Nil
    then show ?thesis using t sp by (simp add: long_from_digits_unfold int_literal_def)
  next
    case (Cons c cs)
    then have lc: "literal_char c" using True by simp
    show ?thesis
    proof (cases "c = 95")
      case c95: True
      then have "take 1 t = [95]" using t Cons by (simp add: asc_def)
      then show ?thesis using sp Cons c95 by (simp add: long_from_digits_unfold int_literal_def)
    next
      case False
      then have nt: "take 1 t \<noteq> [95]" using t Cons asc_95[OF lc] by simp
      have p: "py_in [95, 95] (0 # b) = py_in [95, 95] b" by (simp add: dd_head)
      have q: "last (0 # b) = last b" using Cons by simp
      have n: "length (filter (\<lambda>c. c \<noteq> 95) b) \<noteq> 0" using Cons False by simp
      have sc: "scan 0 0 0 t =
        (if \<not> py_in [95, 95] b \<and> last b \<noteq> 95
         then Some (base10 (map (\<lambda>c. the (todecimal c)) (filter (\<lambda>c. c \<noteq> 95) b)),
                    length (filter (\<lambda>c. c \<noteq> 95) b), [])
         else None)"
        unfolding t scan_literal[OF True, of 0 0 0] p q by (simp add: base10_def)
      have all: "list_all literal_char b" using True by (simp add: list_all_iff)
      have hd: "hd b \<noteq> 95" "b \<noteq> []" using Cons False by simp_all
      show ?thesis
        using nt n all hd
        by (simp add: long_from_digits_unfold sc int_literal_def sp max_str_digits_def Let_def)
    qed
  qed
next
  case False
  then have bad: "\<exists>c\<in>set b. \<not> literal_char c" by simp
  then have ne: "b \<noteq> []" by auto
  then have ns: "\<not> isspace (last b)" using lst by simp
  have stop: "\<exists>a\<in>set t. a \<noteq> 95 \<and> \<not> is_digit a" and last: "\<not> c_isspace (last t)"
  proof -
    show "\<exists>a\<in>set t. a \<noteq> 95 \<and> \<not> is_digit a"
      using img
    proof
      assume a: "list_all (\<lambda>c. c < 128) b \<and> t = b"
      from bad obtain c where c: "c \<in> set b" "\<not> literal_char c" by blast
      then have "c < 128" using a by (simp add: list_all_iff)
      from not_literal_ascii[OF c(2) this] c(1) a show ?thesis by auto
    next
      assume "t = transform b"
      then show ?thesis using transform_stop[OF bad] by simp
    qed
    show "\<not> c_isspace (last t)"
      using img
    proof
      assume "list_all (\<lambda>c. c < 128) b \<and> t = b"
      then show ?thesis using ns c_isspace_isspace by auto
    next
      assume "t = transform b"
      then show ?thesis using transform_last[OF ne ns] by simp
    qed
  qed
  have "int_literal s = None"
    using False by (auto simp: int_literal_def sp list_all_iff Let_def)
  then show ?thesis using long_from_digits_stops[OF stop last] by simp
qed

lemma py_int_literal:
  assumes "s = [] \<or> (\<not> isspace (hd s) \<and> \<not> isspace (last s))"
  shows "py_int s = (case int_literal s of Some n \<Rightarrow> Inr n | None \<Rightarrow> Inl ValueError)"
proof (cases s)
  case Nil
  show ?thesis unfolding Nil
    by (simp add: py_int_unfold to_ascii_def split_sign_def long_from_digits_unfold int_literal_def)
next
  case (Cons c r)
  then have hs: "\<not> isspace c" and ls: "\<not> isspace (last s)" and ne: "s \<noteq> []"
    using assms by simp_all
  have nc: "\<not> c_isspace c" using hs c_isspace_isspace by blast
  obtain sg b where sp: "split_sign s = (sg, b)" by (cases "split_sign s")
  have lb: "b = [] \<or> \<not> isspace (last b)"
    using sp ls Cons by (auto simp: split_sign_def split: if_splits)
  show ?thesis
  proof (cases "list_all (\<lambda>c. c < 128) s")
    case True
    then have a: "to_ascii s = s" by (simp add: to_ascii_def)
    have d: "dropWhile c_isspace s = s" using Cons nc by simp
    have "list_all (\<lambda>c. c < 128) b"
      using True sp Cons by (auto simp: split_sign_def split: if_splits)
    then have "long_from_digits sg b =
        (case int_literal s of Some n \<Rightarrow> Inr n | None \<Rightarrow> Inl ValueError)"
      using long_from_digits_literal[OF _ lb sp, of b] by simp
    then show ?thesis by (simp add: py_int_unfold a d sp)
  next
    case False
    then have a: "to_ascii s = transform s" by (simp add: to_ascii_def)
    have h: "\<not> c_isspace (hd (transform s))"
      "hd s = 43 \<or> hd s = 45 \<longrightarrow> transform s = hd s # transform (tl s)"
      "hd s \<noteq> 43 \<and> hd s \<noteq> 45 \<longrightarrow> hd (transform s) \<noteq> 43 \<and> hd (transform s) \<noteq> 45"
      using transform_hd[OF ne] hs Cons by simp_all
    have tne: "transform s \<noteq> []" using ne by (simp add: transform_Nil)
    then have d: "dropWhile c_isspace (transform s) = transform s"
      using h(1) by (cases "transform s") auto
    have "split_sign (transform s) = (sg, transform b)"
    proof (cases "c = 43 \<or> c = 45")
      case True
      then have "transform s = c # transform r" using h(2) Cons by simp
      then show ?thesis using True sp Cons by (auto simp: split_sign_def)
    next
      case False
      then have "hd (transform s) \<noteq> 43 \<and> hd (transform s) \<noteq> 45" using h(3) Cons by simp
      then have "split_sign (transform s) = (1, transform s)"
        using tne by (cases "transform s") (auto simp: split_sign_def)
      moreover have "sg = 1" "b = s" using False sp Cons by (auto simp: split_sign_def)
      ultimately show ?thesis by simp
    qed
    moreover have "long_from_digits sg (transform b) =
        (case int_literal s of Some n \<Rightarrow> Inr n | None \<Rightarrow> Inl ValueError)"
      using long_from_digits_literal[OF _ lb sp, of "transform b"] by simp
    ultimately show ?thesis by (simp add: py_int_unfold a d)
  qed
qed

lemma py_int_strip:
  "py_int (strip s) = (case int_literal (strip s) of Some n \<Rightarrow> Inr n | None \<Rightarrow> Inl ValueError)"
  using strip_hd[of s] strip_last[of s] by (intro py_int_literal) blast

lemma plain_decimal_int_literal:
  assumes "plain_decimal s = Some n" and "length s \<le> 4300"
  shows "int_literal s = Some n"
proof -
  obtain sg b where sp: "split_sign s = (sg, b)" by (cases "split_sign s")
  have b: "b \<noteq> []" "list_all is_digit b" "n = sg * int (decimal_value b)"
    using assms(1) by (auto simp: plain_decimal_def sp split: if_splits)
  have d: "\<And>c. c \<in> set b \<Longrightarrow> c \<noteq> 95 \<and> todecimal c = Some (c - 48)"
    using b(2) by (auto simp: list_all_iff is_digit_def todecimal_ascii)
  then have f: "filter (\<lambda>c. c \<noteq> 95) b = b" by (simp add: filter_id_conv)
  have l: "list_all literal_char b" using d by (simp add: list_all_iff literal_char_def)
  have "length b \<le> length s" using sp by (auto simp: split_sign_def split: list.splits if_splits)
  then have len: "length b \<le> 4300" using assms(2) by simp
  have h: "hd b \<noteq> 95" "last b \<noteq> 95" using d b(1) by (simp_all add: hd_in_set)
  have nd: "\<not> py_in [95, 95] b"
  proof
    assume "py_in [95, 95] b"
    then obtain p q where "b = p @ [95, 95] @ q" using py_in_iff by blast
    then have "95 \<in> set b" by simp
    then show False using d by blast
  qed
  have v: "map (\<lambda>c. the (todecimal c)) b = map (\<lambda>c. c - 48) b" using d by simp
  show ?thesis
    using b(1,3) l len h nd by (simp add: int_literal_def sp f v decimal_value_def)
qed

lemma underscore_line:
  "strip (ascii ''Foo'' @ sep @ ascii ''2_008'' @ [10]) = ascii ''Foo'' @ sep @ ascii ''2_008''"
  "split1 sep (ascii ''Foo'' @ sep @ ascii ''2_008'') = Inr [ascii ''Foo'', ascii ''2_008'']"
  "strip (ascii ''2_008'') = ascii ''2_008''"
  "strip (ascii ''Foo'') = ascii ''Foo''"
  by (simp_all add: strip_def isspace_def whitespace_table_def sep_def ascii_def split1_def)

section \<open>Years that are not plain decimals, and a plain decimal that is no year\<close>

lemma long_run_sign: "split_sign (replicate 4301 49) = (1, replicate 4301 49)"
proof -
  have "replicate 4301 (49 :: nat) = 49 # replicate 4300 49"
    by (simp add: replicate_Suc[symmetric] del: replicate_Suc)
  then have "split_sign (replicate 4301 49) = (1, 49 # replicate 4300 49)"
    by (simp add: split_sign_def)
  then show ?thesis by (simp add: replicate_Suc[symmetric] del: replicate_Suc)
qed

lemma loop_body_split:
  assumes "strip raw = line" and "py_find sep line = Some k"
      and "strip (take k line) = t" and "py_int (strip (drop (k + 3) line)) = r"
  shows "loop_body i raw =
     Inr (Some \<lparr>id_field = str_nat i, title = t,
                year = (case r of Inr n \<Rightarrow> Some n | Inl e \<Rightarrow> None), rating = 0\<rparr>)"
proof -
  have "line \<noteq> []" using py_find_bound[OF assms(2)] by (auto simp: sep_def)
  then show ?thesis using assms by (simp add: loop_body_eq)
qed

lemma long_run_line:
  "loop_body 1 (ascii ''Foo'' @ sep @ replicate 4301 49 @ [10]) =
     Inr (Some \<lparr>id_field = ascii ''1'', title = ascii ''Foo'', year = None, rating = 0\<rparr>)"
proof -
  let ?ds = "replicate 4301 (49 :: nat)"
  let ?line = "ascii ''Foo'' @ sep @ ?ds"
  have sp: "\<not> isspace 49" "isspace 10" "\<not> isspace 70"
    by (simp_all add: isspace_def whitespace_table_def)
  have l: "dropWhile isspace (ascii ''Foo'' @ sep @ ?ds @ [10]) = ?line @ [10]"
    using sp by (simp add: ascii_def)
  have "rev (?line @ [10]) = 10 # ?ds @ rev (ascii ''Foo'' @ sep)" by simp
  moreover have "?ds = 49 # replicate 4300 49" by (simp add: replicate_Suc[symmetric] del: replicate_Suc)
  ultimately have "dropWhile isspace (rev (?line @ [10])) = rev ?line"
    using sp by simp
  then have s: "strip (ascii ''Foo'' @ sep @ ?ds @ [10]) = ?line"
    unfolding strip_def l by simp
  have f: "py_find sep ?line = Some 3" by (simp add: ascii_def sep_def)
  have t: "strip (take 3 ?line) = ascii ''Foo''"
    by (simp add: ascii_def strip_def isspace_def whitespace_table_def)
  have "drop (3 + 3) ?line = ?ds" by (simp add: ascii_def sep_def)
  moreover have "strip ?ds = ?ds" using sp by (intro strip_fixed) simp_all
  ultimately have y: "strip (drop (3 + 3) ?line) = ?ds" by simp
  have "int_literal ?ds = None"
    by (simp add: int_literal_def long_run_sign Let_def)
  moreover have "py_int ?ds = (case int_literal ?ds of Some n \<Rightarrow> Inr n | None \<Rightarrow> Inl ValueError)"
    using sp by (intro py_int_literal) simp
  ultimately have "py_int ?ds = Inl ValueError" by simp
  then have i: "py_int (strip (drop (3 + 3) ?line)) = Inl ValueError" by (simp only: y)
  have n: "str_nat 1 = ascii ''1''" by (simp add: str_nat.simps ascii_def)
  show ?thesis
    using loop_body_split[OF s f t i, of 1] by (simp only: n sum.case)
qed

lemma long_run_plain: "plain_decimal (replicate 4301 49) \<noteq> None"
  by (simp add: plain_decimal_def long_run_sign is_digit_def list_all_iff)

lemma arabic_line:
  "loop_body 1 (ascii ''Foo'' @ sep @ [1634, 1632, 1632, 1640, 10]) =
     Inr (Some \<lparr>id_field = ascii ''1'', title = ascii ''Foo'', year = Some 2008, rating = 0\<rparr>)"
  "plain_decimal [1634, 1632, 1632, 1640] = None"
  by (simp_all add: eval_defs todecimal_def decimal_zeros_def plain_decimal_def)

section \<open>The digits of a line number\<close>

lemma str_nat_digits: "list_all is_digit (str_nat n)"
proof (induction n rule: str_nat.induct)
  case (1 n)
  show ?case
  proof (cases "n < 10")
    case True
    then show ?thesis by (simp add: str_nat.simps[of n] is_digit_def)
  next
    case False
    then have "list_all is_digit (str_nat (n div 10))" using 1 by simp
    moreover have "is_digit (48 + n mod 10)" unfolding is_digit_def by presburger
    ultimately show ?thesis using False by (simp add: str_nat.simps[of n])
  qed
qed

lemma str_nat_hd: "0 < n \<Longrightarrow> str_nat n \<noteq> [] \<and> hd (str_nat n) \<noteq> 48"
proof (induction n rule: str_nat.induct)
  case (1 n)
  show ?case
  proof (cases "n < 10")
    case True
    then show ?thesis using 1(2) by (simp add: str_nat.simps[of n])
  next
    case False
    then have "0 < n div 10" by (simp add: div_greater_zero_iff)
    then have "str_nat (n div 10) \<noteq> [] \<and> hd (str_nat (n div 10)) \<noteq> 48" using 1(1) False by simp
    then show ?thesis using False by (simp add: str_nat.simps[of n])
  qed
qed

section \<open>Writing the JSON text\<close>















section \<open>The digit limit\<close>




















section \<open>Properties of the specification\<close>

text \<open>
  C4. A line whose stripped text is not empty and does not contain the separator gives
  a record whose title is the whole stripped line and whose year is null.
\<close>

theorem no_separator_title_only:
  "strip raw \<noteq> [] \<Longrightarrow> \<not> py_in sep (strip raw) \<Longrightarrow>
   loop_body i raw =
     Inr (Some \<lparr>id_field = str_nat i, title = strip raw, year = None, rating = 0\<rparr>)"
  by (simp add: loop_body_unfold)

theorem no_separator_title_only_witness:
  "strip (ascii ''Just A Title'' @ [10]) \<noteq> [] \<and>
   \<not> py_in sep (strip (ascii ''Just A Title'' @ [10])) \<and>
   loop_body 7 (ascii ''Just A Title'' @ [10]) =
     Inr (Some \<lparr>id_field = ascii ''7'', title = ascii ''Just A Title'',
                year = None, rating = 0\<rparr>)"
proof -
  have s: "strip (ascii ''Just A Title'' @ [10]) = ascii ''Just A Title''"
    by (simp add: eval_defs)
  have h1: "strip (ascii ''Just A Title'' @ [10]) \<noteq> []"
    unfolding s by (simp add: ascii_def)
  have h2: "\<not> py_in sep (strip (ascii ''Just A Title'' @ [10]))"
    unfolding s by (simp add: ascii_def py_in_def sep_def)
  have i: "str_nat 7 = ascii ''7''" by (simp add: str_nat.simps ascii_def)
  show ?thesis
    using h1 h2 no_separator_title_only[OF h1 h2, of 7] by (simp add: s i)
qed

text \<open>
  C6. Whatever the input lines, every record of the output has rating 0.
\<close>

theorem rating_always_zero:
  "\<exists>items. convert lines = Inr items \<and> (\<forall>d\<in>set items. rating d = 0)"
proof -
  obtain items where c: "convert lines = Inr items"
    using convert_total by blast
  have "rating d = 0" if "d \<in> set items" for d
    using convert_emitted[OF c that] loop_body_rating by blast
  with c show ?thesis by blast
qed

theorem rating_always_zero_witness:
  "\<exists>items. convert example_lines = Inr items \<and> length items = 3 \<and>
           (\<forall>d\<in>set items. rating d = 0)"
  using rating_always_zero[of example_lines] by (auto simp: example_run example_items_def)

text \<open>
  C3. The output holds exactly one record per line that is not blank after stripping,
  in the order of the input: the records are, one for one and in order, what the loop
  body builds from the non-blank lines paired with their numbers in the whole input.
  A white-space-only line gives no record, and its number is used up all the same.
\<close>

theorem one_record_per_nonblank_line:
  "\<exists>items. convert lines = Inr items \<and>
     length items = length (filter (\<lambda>l. strip l \<noteq> []) lines) \<and>
     list_all2 (\<lambda>d (j, l). loop_body j l = Inr (Some d)) items
       (filter (\<lambda>(j, l). strip l \<noteq> []) (List.enumerate 1 lines))"
proof -
  obtain items where c: "convert lines = Inr items"
    and a: "list_all2 (\<lambda>d (j, l). loop_body j l = Inr (Some d)) items
              (filter (\<lambda>(j, l). strip l \<noteq> []) (List.enumerate 1 lines))"
    using convert_lines by blast
  have "length items = length (filter (\<lambda>(j, l). strip l \<noteq> []) (List.enumerate 1 lines))"
    using a by (rule list_all2_lengthD)
  also have "\<dots> = length (map snd (filter (\<lambda>(j, l). strip l \<noteq> []) (List.enumerate 1 lines)))"
    by simp
  also have "\<dots> = length (filter (\<lambda>l. strip l \<noteq> []) lines)"
    by (simp only: filter_enumerate_snd)
  finally show ?thesis using c a by blast
qed

theorem one_record_per_nonblank_line_witness:
  "\<exists>items. convert example_file = Inr items \<and> length items = 3 \<and>
     length (filter (\<lambda>l. strip l \<noteq> []) example_file) = 3 \<and>
     list_all2 (\<lambda>d (j, l). loop_body j l = Inr (Some d)) items
       [(1, example_file ! 0), (2, example_file ! 1), (4, example_file ! 3)]"
proof -
  have e: "filter (\<lambda>(j, l). strip l \<noteq> []) (List.enumerate 1 example_file) =
           [(1, example_file ! 0), (2, example_file ! 1), (4, example_file ! 3)]"
    by (simp add: example_file_def example_lines_def enumerate_eq_zip upt_rec
          strip_def isspace_def whitespace_table_def sep_def ascii_def)
  obtain items where i: "convert example_file = Inr items"
      "length items = length (filter (\<lambda>l. strip l \<noteq> []) example_file)"
      "list_all2 (\<lambda>d (j, l). loop_body j l = Inr (Some d)) items
         (filter (\<lambda>(j, l). strip l \<noteq> []) (List.enumerate 1 example_file))"
    using one_record_per_nonblank_line[of example_file] by blast
  have "items = example_items" using i(1) example_file_run by simp
  then have l: "length items = 3" by (simp add: example_items_def)
  show ?thesis using i(1) l i(2)[unfolded l] i(3)[unfolded e] by auto
qed

text \<open>
  C2. The id of every record is the decimal string of the 1-based position of its line
  in the whole input, blank lines counted: it is made of the digits 0 to 9 only, does
  not start with 0, and reads as that position. Read as integers, the ids of the output
  are positive and strictly increasing in output order, hence distinct.
\<close>

theorem ids_are_line_numbers:
  "\<exists>items. convert lines = Inr items \<and>
     list_all2 (\<lambda>d (j, l). loop_body j l = Inr (Some d) \<and> id_field d = str_nat j \<and>
                           list_all is_digit (id_field d) \<and> hd (id_field d) \<noteq> 48 \<and>
                           decimal_value (id_field d) = j)
       items (filter (\<lambda>(j, l). strip l \<noteq> []) (List.enumerate 1 lines)) \<and>
     sorted_wrt (<) (map (\<lambda>d. decimal_value (id_field d)) items) \<and>
     distinct (map id_field items) \<and>
     (\<forall>d\<in>set items. 0 < decimal_value (id_field d))"
proof -
  let ?ps = "filter (\<lambda>(j, l). strip l \<noteq> []) (List.enumerate 1 lines)"
  obtain items where c: "convert lines = Inr items"
    and a: "list_all2 (\<lambda>d (j, l). loop_body j l = Inr (Some d)) items ?ps"
    using convert_lines by blast
  have pos: "0 < fst p" if "p \<in> set ?ps" for p
    using that by (auto simp: in_set_enumerate_eq)
  have b: "list_all2 (\<lambda>d (j, l). loop_body j l = Inr (Some d) \<and> id_field d = str_nat j \<and>
                           list_all is_digit (id_field d) \<and> hd (id_field d) \<noteq> 48 \<and>
                           decimal_value (id_field d) = j) items ?ps"
    using a
  proof (rule list.rel_mono_strong)
    fix d p
    assume "p \<in> set ?ps" and "case p of (j, l) \<Rightarrow> loop_body j l = Inr (Some d)"
    then show "case p of (j, l) \<Rightarrow> loop_body j l = Inr (Some d) \<and> id_field d = str_nat j \<and>
                           list_all is_digit (id_field d) \<and> hd (id_field d) \<noteq> 48 \<and>
                           decimal_value (id_field d) = j"
      using pos[of p] str_nat_hd[of "fst p"]
      by (auto simp: loop_body_id decimal_value_str_nat str_nat_digits)
  qed
  then have "list_all2 (\<lambda>d p. decimal_value (id_field d) = fst p) items ?ps"
    by (rule list_all2_mono) auto
  then have m: "map (\<lambda>d. decimal_value (id_field d)) items = map fst ?ps"
    by (rule list_all2_map_eq)
  have s: "sorted_wrt (<) (map (\<lambda>d. decimal_value (id_field d)) items)"
    unfolding m by (rule sorted_fst_filter_enumerate)
  have "0 < decimal_value (id_field d)" if "d \<in> set items" for d
  proof -
    have "decimal_value (id_field d) \<in> set (map fst ?ps)"
      using that m[symmetric] by (metis (no_types, lifting) image_eqI list.set_map)
    then show ?thesis by (auto simp: in_set_enumerate_eq)
  qed
  moreover have "distinct (map id_field items)"
  proof -
    have "distinct (map (\<lambda>d. decimal_value (id_field d)) items)"
      using s by (simp only: strict_sorted_iff)
    then have "distinct (map decimal_value (map id_field items))"
      by (simp only: map_map comp_def)
    then show ?thesis by (rule distinct_map[THEN iffD1, THEN conjunct1])
  qed
  ultimately show ?thesis using c b s by blast
qed

theorem ids_are_line_numbers_witness:
  "\<exists>items. convert example_file = Inr items \<and>
     map id_field items = [ascii ''1'', ascii ''2'', ascii ''4''] \<and>
     sorted_wrt (<) (map (\<lambda>d. decimal_value (id_field d)) items) \<and>
     distinct (map id_field items) \<and>
     (\<forall>d\<in>set items. 0 < decimal_value (id_field d))"
  using ids_are_line_numbers[of example_file]
  by (auto simp: example_file_run example_items_def)

text \<open>
  C5. The four example lines (with or without their newlines) give exactly the three
  records with ids 1, 2 and 4: Breaking Bad with year 2008, The Wire and Chernobyl with
  no year, all rated 0.
\<close>

theorem example_end_to_end:
  "convert example_file = Inr example_items \<and> convert example_lines = Inr example_items"
  using example_file_run example_run by (rule conjI)

text \<open>
  C10. The title of every record of the output is a non-empty string.
\<close>

theorem title_never_empty:
  "\<exists>items. convert lines = Inr items \<and> (\<forall>d\<in>set items. title d \<noteq> [])"
proof -
  obtain items where c: "convert lines = Inr items"
    using convert_total by blast
  have "title d \<noteq> []" if "d \<in> set items" for d
    using convert_emitted[OF c that] loop_body_title by blast
  with c show ?thesis by blast
qed

theorem title_never_empty_witness:
  "\<exists>items. convert example_file = Inr items \<and> length items = 3 \<and>
           (\<forall>d\<in>set items. title d \<noteq> [])"
  using title_never_empty[of example_file] by (auto simp: example_file_run example_items_def)

text \<open>
  C9. When the separator at which a raw line would be cut is followed by white space
  only, stripping removes the separator's last space, the stripped line no longer contains
  the separator, and the record has the whole stripped line, ending in space and dash,
  as its title and no year.
\<close>

theorem separator_before_trailing_space:
  assumes "split1 sep raw = Inr [pre, ws]" and "\<forall>c\<in>set ws. isspace c"
  shows "loop_body i raw =
           Inr (Some \<lparr>id_field = str_nat i, title = strip raw, year = None, rating = 0\<rparr>) \<and>
         strip raw = dropWhile isspace (pre @ [32, 8212]) \<and>
         \<not> py_in sep (strip raw)"
proof -
  let ?t = "dropWhile isspace (pre @ [32, 8212])"
  have raw: "raw = pre @ sep @ ws" and k: "py_find sep raw = Some (length pre)"
    using split1_parts[OF assms(1)] by simp_all
  have s: "strip raw = ?t" unfolding raw using assms(2) by (rule strip_trailing_separator)
  have ne: "?t \<noteq> []"
    using not_isspace_dash by (auto simp: dropWhile_eq_Nil_conv)
  have nin: "\<not> py_in sep ?t"
  proof
    assume "py_in sep ?t"
    then obtain p q where pq: "?t = p @ sep @ q" using py_in_iff by blast
    have "pre @ [32, 8212] = takeWhile isspace (pre @ [32, 8212]) @ ?t" by simp
    then obtain u where u: "pre @ [32, 8212] = u @ p @ sep @ q" using pq by metis
    then have "raw = (u @ p) @ sep @ (q @ 32 # ws)" unfolding raw by (simp add: sep_def)
    from py_find_first[OF k this] have "length pre \<le> length u + length p" by simp
    moreover have "length pre + 2 = length u + length p + 3 + length q"
      using arg_cong[OF u, of length] by (simp add: sep_def)
    ultimately show False by simp
  qed
  have ne': "strip raw \<noteq> []" and nin': "\<not> py_in sep (strip raw)"
    using ne nin by (simp_all only: s not_False_eq_True)
  have "loop_body i raw =
          Inr (Some \<lparr>id_field = str_nat i, title = strip raw, year = None, rating = 0\<rparr>)"
    using ne' nin' by (simp add: loop_body_unfold)
  then show ?thesis using s nin' by blast
qed

theorem separator_before_trailing_space_witness:
  "split1 sep (ascii ''Foo'' @ sep @ [10]) = Inr [ascii ''Foo'', [10]] \<and>
   isspace 10 \<and>
   loop_body 1 (ascii ''Foo'' @ sep @ [10]) =
     Inr (Some \<lparr>id_field = ascii ''1'', title = ascii ''Foo'' @ [32, 8212],
                year = None, rating = 0\<rparr>)"
proof -
  have h1: "split1 sep (ascii ''Foo'' @ sep @ [10]) = Inr [ascii ''Foo'', [10]]"
    by (simp add: split1_def sep_def ascii_def)
  have h2: "\<forall>c\<in>set [10]. isspace c"
    by (simp add: isspace_def whitespace_table_def)
  have d: "dropWhile isspace (ascii ''Foo'' @ [32, 8212]) = ascii ''Foo'' @ [32, 8212]"
    by (simp add: ascii_def isspace_def whitespace_table_def)
  have i: "str_nat (Suc 0) = ascii ''1''" by (simp add: str_nat.simps ascii_def)
  show ?thesis
    using h1 h2 separator_before_trailing_space[OF h1 h2, of 1] by (simp add: d i)
qed







text \<open>
  C1, as amended. A line whose stripped text contains the separator is cut at the first
  occurrence only, both parts are stripped, and the year is the integer value exactly
  when the stripped part after the cut is an optional sign followed by decimal digits
  (of any script) in which single underscores may stand between digits, with at most
  4300 digits; in every other case the year is null, and no error is raised. A plain
  optionally signed run of at most 4300 of the digits 0 to 9 is always parsed to its
  value.
\<close>

theorem separator_split_and_year:
  assumes "py_in sep (strip raw)"
  shows "\<exists>title0 year_str0.
     split1 sep (strip raw) = Inr [title0, year_str0] \<and>
     strip raw = title0 @ sep @ year_str0 \<and>
     (\<forall>p q. strip raw = p @ sep @ q \<longrightarrow> length title0 \<le> length p) \<and>
     loop_body i raw =
       Inr (Some \<lparr>id_field = str_nat i, title = strip title0,
                  year = int_literal (strip year_str0), rating = 0\<rparr>) \<and>
     (\<forall>n. plain_decimal (strip year_str0) = Some n \<and> length (strip year_str0) \<le> 4300 \<longrightarrow>
          int_literal (strip year_str0) = Some n)"
proof -
  let ?line = "strip raw"
  obtain k where k: "py_find sep ?line = Some k" using assms by (auto simp: py_in_def)
  let ?t = "take k ?line" and ?y = "drop (k + 3) ?line"
  have l: "length sep = 3" and n: "sep \<noteq> []" by (simp_all add: sep_def)
  have ne: "?line \<noteq> []" using py_find_bound[OF k] l by auto
  have kb: "k \<le> length ?line" using py_find_bound[OF k] by simp
  have 1: "split1 sep ?line = Inr [?t, ?y]" using k n l by (simp add: split1_def)
  have 2: "?line = ?t @ sep @ ?y" using py_find_Some[OF k] l by simp
  have 3: "\<forall>p q. ?line = p @ sep @ q \<longrightarrow> length ?t \<le> length p"
    using py_find_first[OF k] kb by simp
  have y: "(case py_int (strip ?y) of Inr n \<Rightarrow> Some n | Inl e \<Rightarrow> None) = int_literal (strip ?y)"
    by (simp add: py_int_strip split: option.splits)
  have 4: "loop_body i raw =
       Inr (Some \<lparr>id_field = str_nat i, title = strip ?t,
                  year = int_literal (strip ?y), rating = 0\<rparr>)"
    using ne k by (simp add: loop_body_eq y)
  have 5: "\<forall>n. plain_decimal (strip ?y) = Some n \<and> length (strip ?y) \<le> 4300 \<longrightarrow>
          int_literal (strip ?y) = Some n"
    using plain_decimal_int_literal by blast
  from 1 2 3 4 5 show ?thesis by blast
qed

theorem year_grammar_counterexample:
  "split1 sep (strip (ascii ''Foo'' @ sep @ ascii ''2_008'' @ [10])) =
     Inr [ascii ''Foo'', ascii ''2_008''] \<and>
   strip (ascii ''2_008'') = ascii ''2_008'' \<and>
   plain_decimal (ascii ''2_008'') = None \<and>
   loop_body 1 (ascii ''Foo'' @ sep @ ascii ''2_008'' @ [10]) =
     Inr (Some \<lparr>id_field = ascii ''1'', title = ascii ''Foo'', year = Some 2008, rating = 0\<rparr>) \<and>
   plain_decimal [1634, 1632, 1632, 1640] = None \<and>
   loop_body 1 (ascii ''Foo'' @ sep @ [1634, 1632, 1632, 1640, 10]) =
     Inr (Some \<lparr>id_field = ascii ''1'', title = ascii ''Foo'', year = Some 2008, rating = 0\<rparr>) \<and>
   plain_decimal (replicate 4301 49) \<noteq> None \<and>
   loop_body 1 (ascii ''Foo'' @ sep @ replicate 4301 49 @ [10]) =
     Inr (Some \<lparr>id_field = ascii ''1'', title = ascii ''Foo'', year = None, rating = 0\<rparr>)"
proof -
  have "plain_decimal (ascii ''2_008'') = None"
    by (simp add: plain_decimal_def split_sign_def ascii_def is_digit_def)
  moreover have "loop_body 1 (ascii ''Foo'' @ sep @ ascii ''2_008'' @ [10]) =
     Inr (Some \<lparr>id_field = ascii ''1'', title = ascii ''Foo'', year = Some 2008, rating = 0\<rparr>)"
    by (simp add: eval_defs)
  ultimately show ?thesis
    using arabic_line long_run_plain long_run_line by (simp only: underscore_line) simp
qed

theorem separator_split_and_year_witness:
  "py_in sep (strip (ascii ''Foo'' @ sep @ ascii ''2_008'' @ [10])) \<and>
   loop_body 1 (ascii ''Foo'' @ sep @ ascii ''2_008'' @ [10]) =
     Inr (Some \<lparr>id_field = ascii ''1'', title = ascii ''Foo'',
                year = int_literal (ascii ''2_008''), rating = 0\<rparr>) \<and>
   int_literal (ascii ''2_008'') = Some 2008"
proof -
  let ?raw = "ascii ''Foo'' @ sep @ ascii ''2_008'' @ [10]"
  have h: "py_in sep (strip ?raw)"
    unfolding underscore_line by (simp add: py_in_def sep_def ascii_def)
  obtain t y where s: "split1 sep (strip ?raw) = Inr [t, y]"
    and b: "loop_body 1 ?raw =
       Inr (Some \<lparr>id_field = str_nat 1, title = strip t, year = int_literal (strip y), rating = 0\<rparr>)"
    using separator_split_and_year[OF h, of 1] by blast
  have "t = ascii ''Foo''" "y = ascii ''2_008''" using s unfolding underscore_line by simp_all
  then have b': "loop_body 1 ?raw =
       Inr (Some \<lparr>id_field = str_nat 1, title = ascii ''Foo'',
                  year = int_literal (ascii ''2_008''), rating = 0\<rparr>)"
    using b by (simp add: underscore_line)
  have i: "str_nat 1 = ascii ''1''" by (simp add: str_nat.simps ascii_def)
  have v: "int_literal (ascii ''2_008'') = Some 2008"
    by (simp add: int_literal_def split_sign_def ascii_def literal_char_def todecimal_def
          decimal_zeros_def py_in_def base10_def)
  from h b' v show ?thesis unfolding i by blast
qed

end
